theory Spec2Isabelle
  imports Complex_Main "HOL-Library.Sublist" "HOL-Library.Multiset"
begin

section \<open>Errors and BigInt arithmetic of the JavaScript program (src/index.js)\<close>

text \<open>
  Every exception the modelled code can raise is a constructor of \<open>error\<close>, named after
  the exception and the operation that throws it:
  \<^item> \<open>RangeError_NaN_to_BigInt\<close>: \<^verbatim>\<open>BigInt(NaN)\<close>, thrown in \<^verbatim>\<open>decodeValue\<close> when
    \<^verbatim>\<open>parseInt\<close> of a character is \<^verbatim>\<open>NaN\<close>;
  \<^item> \<open>RangeError_Division_by_zero\<close>: the BigInt operator \<^verbatim>\<open>/\<close> with a zero divisor;
  \<^item> \<open>TypeError_null_to_BigInt\<close>: \<^verbatim>\<open>BigInt(null)\<close>, thrown at the end of
    \<^verbatim>\<open>findSecret\<close> when no candidate was tallied;
  \<^item> \<open>ArithmeticException_Denominator_zero\<close>: thrown by the constructor of the Java
    class \<^verbatim>\<open>Fraction\<close>;
  \<^item> \<open>ArithmeticException_divide_by_zero\<close>: \<^verbatim>\<open>BigInteger.divide\<close> with a zero divisor.
  A computation that may throw returns \<open>error + 'a\<close>, with \<open>Inl\<close> for the exception.
\<close>

datatype error =
    RangeError_NaN_to_BigInt
  | RangeError_Division_by_zero
  | TypeError_null_to_BigInt
  | ArithmeticException_Denominator_zero
  | ArithmeticException_divide_by_zero

definition then_e :: "error + 'a \<Rightarrow> ('a \<Rightarrow> error + 'b) \<Rightarrow> error + 'b" where
  "then_e r f = (case r of Inl e \<Rightarrow> Inl e | Inr v \<Rightarrow> f v)"

text \<open>
  BigInt values are unbounded integers (\<open>int\<close>). The BigInt operators \<^verbatim>\<open>/\<close> and \<^verbatim>\<open>%\<close>
  truncate toward zero; \<^verbatim>\<open>/\<close> throws a RangeError when the divisor is \<^verbatim>\<open>0n\<close>.
  \<open>bigint_rem\<close> is only evaluated under the loop guard \<^verbatim>\<open>b !== 0n\<close> of \<^verbatim>\<open>gcd\<close>.
\<close>

definition bigint_quot :: "int \<Rightarrow> int \<Rightarrow> int" where
  "bigint_quot a b = sgn a * sgn b * (\<bar>a\<bar> div \<bar>b\<bar>)"

definition bigint_div :: "int \<Rightarrow> int \<Rightarrow> error + int" where
  "bigint_div a b = (if b = 0 then Inl RangeError_Division_by_zero else Inr (bigint_quot a b))"

definition bigint_rem :: "int \<Rightarrow> int \<Rightarrow> int" where
  "bigint_rem a b = a - b * bigint_quot a b"

section \<open>lagrangeAtZero (src/index.js, lines 36-64)\<close>

record point =
  x :: int
  y :: int

type_synonym frac = "int \<times> int"

text \<open>
  A fraction is the two-element array \<^verbatim>\<open>[n, d]\<close> of the source, a pair here. The local
  function \<^verbatim>\<open>gcd\<close> is \<open>gcd_js\<close> (the name \<open>gcd\<close> is taken); \<open>gcd_loop\<close> is its
  loop \<^verbatim>\<open>while (b !== 0n) { [a, b] = [b, a % b]; }\<close>, entered with the two absolute
  values.
\<close>

function gcd_loop :: "int \<Rightarrow> int \<Rightarrow> int" where
  "gcd_loop a b = (if b \<noteq> 0 then gcd_loop b (bigint_rem a b) else a)"
  by pat_completeness auto
termination
proof (relation "measure (\<lambda>(a, b). nat \<bar>b\<bar>)")
  show "wf (measure (\<lambda>(a, b). nat \<bar>b\<bar>))" by simp
next
  fix a b :: int
  assume nz: "b \<noteq> 0"
  have eq: "bigint_rem a b = sgn a * (\<bar>a\<bar> mod \<bar>b\<bar>)"
  proof -
    have "a = sgn a * \<bar>a\<bar>" by (simp add: mult_sgn_abs)
    moreover have "b * sgn b = \<bar>b\<bar>" by (simp add: abs_sgn mult.commute)
    moreover have "\<bar>a\<bar> - \<bar>b\<bar> * (\<bar>a\<bar> div \<bar>b\<bar>) = \<bar>a\<bar> mod \<bar>b\<bar>"
      by (simp add: minus_mult_div_eq_mod)
    ultimately show ?thesis
      unfolding bigint_rem_def bigint_quot_def
      by (metis (no_types, lifting) mult.assoc mult.left_commute right_diff_distrib)
  qed
  have nonneg: "0 \<le> \<bar>a\<bar> mod \<bar>b\<bar>" using nz by simp
  have "\<bar>a\<bar> mod \<bar>b\<bar> < \<bar>b\<bar>" using nz by simp
  moreover have "\<bar>sgn a * (\<bar>a\<bar> mod \<bar>b\<bar>)\<bar> \<le> \<bar>a\<bar> mod \<bar>b\<bar>"
    using nonneg by (cases "a = 0") (simp_all add: abs_mult)
  ultimately have "\<bar>bigint_rem a b\<bar> < \<bar>b\<bar>"
    unfolding eq by linarith
  then show "((b, bigint_rem a b), (a, b)) \<in> measure (\<lambda>(a, b). nat \<bar>b\<bar>)"
    by simp
qed

declare gcd_loop.simps [simp del]

definition gcd_js :: "int \<Rightarrow> int \<Rightarrow> int" where
  "gcd_js a b = gcd_loop (if a < 0 then - a else a) (if b < 0 then - b else b)"

definition simplify :: "int \<Rightarrow> int \<Rightarrow> error + frac" where
  "simplify n d =
     (let (n1, d1) = (if d < 0 then (- n, - d) else (n, d));
          g = gcd_js (if n1 < 0 then - n1 else n1) d1
      in then_e (bigint_div n1 g) (\<lambda>a. then_e (bigint_div d1 g) (\<lambda>b. Inr (a, b))))"

definition addFrac :: "frac \<Rightarrow> frac \<Rightarrow> error + frac" where
  "addFrac f1 f2 = (case (f1, f2) of ((n1, d1), (n2, d2)) \<Rightarrow> simplify (n1 * d2 + n2 * d1) (d1 * d2))"

definition mulFrac :: "frac \<Rightarrow> frac \<Rightarrow> error + frac" where
  "mulFrac f1 f2 = (case (f1, f2) of ((n1, d1), (n2, d2)) \<Rightarrow> simplify (n1 * n2) (d1 * d2))"

text \<open>
  The inner loop over \<^verbatim>\<open>j\<close>: starting from \<^verbatim>\<open>num = 1n, den = 1n\<close>, every index
  \<^verbatim>\<open>j !== i\<close> multiplies \<^verbatim>\<open>num\<close> by \<^verbatim>\<open>0n - points[j].x\<close> and \<^verbatim>\<open>den\<close> by
  \<^verbatim>\<open>xi - points[j].x\<close>. All indices are below \<^verbatim>\<open>points.length\<close>.
\<close>

definition inner_loop :: "point list \<Rightarrow> nat \<Rightarrow> int \<times> int" where
  "inner_loop points i =
     fold (\<lambda>j (nm, dn).
             if i \<noteq> j then (nm * (0 - x (points ! j)), dn * (x (points ! i) - x (points ! j)))
             else (nm, dn))
       [0..<length points] (1, 1)"

text \<open>
  The outer loop over \<^verbatim>\<open>i\<close>, on the indices still to visit, with the running
  \<^verbatim>\<open>result\<close>. The call \<^verbatim>\<open>addFrac(result, mulFrac([yi, 1n], simplify(num, den)))\<close>
  evaluates \<^verbatim>\<open>simplify\<close>, then \<^verbatim>\<open>mulFrac\<close>, then \<^verbatim>\<open>addFrac\<close>; an exception in any of
  them leaves the loop.
\<close>

fun outer_loop :: "point list \<Rightarrow> nat list \<Rightarrow> frac \<Rightarrow> error + frac" where
  "outer_loop points [] result = Inr result"
| "outer_loop points (i # is) result =
     then_e (case inner_loop points i of (nm, dn) \<Rightarrow> simplify nm dn) (\<lambda>s.
     then_e (mulFrac (y (points ! i), 1) s) (\<lambda>m.
     then_e (addFrac result m) (\<lambda>result'.
     outer_loop points is result')))"

definition lagrangeAtZero :: "point list \<Rightarrow> error + int" where
  "lagrangeAtZero points =
     then_e (outer_loop points [0..<length points] (0, 1)) (\<lambda>result.
       bigint_div (fst result) (snd result))"

section \<open>combinations (src/index.js, lines 69-77)\<close>

text \<open>
  \<^verbatim>\<open>r\<close> is the number the caller passes (\<^verbatim>\<open>k\<close>), an integer. The destructuring
  \<^verbatim>\<open>[first, ...rest] = arr\<close> is \<open>hd arr\<close> and \<open>tl arr\<close>; on the empty array it gives
  \<^verbatim>\<open>rest = []\<close> (as \<open>tl []\<close>) and \<^verbatim>\<open>first = undefined\<close>, which is reached only when
  \<^verbatim>\<open>r\<close> is negative. Neither test of the function stops a negative \<^verbatim>\<open>r\<close>, so the
  recursion is defined as a partial function: \<open>None\<close> is a call that never returns
  (in JavaScript, the call stack overflows).
\<close>

partial_function (option) combinations :: "'a list \<Rightarrow> int \<Rightarrow> 'a list list option" where
  "combinations arr r =
     (if r = 0 then Some [[]]
      else if int (length arr) < r then Some []
      else Option.bind (combinations (tl arr) (r - 1)) (\<lambda>with_first.
           Option.bind (combinations (tl arr) r) (\<lambda>without_first.
           Some (map (\<lambda>c. hd arr # c) with_first @ without_first))))"

declare combinations.simps [code]

section \<open>findSecret (src/index.js, lines 83-102)\<close>

text \<open>
  The \<^verbatim>\<open>Map\<close> \<^verbatim>\<open>freq\<close> is the list of its entries in insertion order. Its keys are the
  decimal strings \<^verbatim>\<open>lagrangeAtZero(combo).toString()\<close>; \<^verbatim>\<open>toString\<close> is injective on
  BigInt values and \<^verbatim>\<open>BigInt(best)\<close> reads the string back, so a key is modelled by the
  integer it denotes. \<open>map_set\<close> is \<^verbatim>\<open>Map.prototype.set\<close>: an existing key keeps its
  position, a new key goes to the end.
\<close>

type_synonym freq_map = "(int \<times> nat) list"

fun map_set :: "int \<Rightarrow> nat \<Rightarrow> freq_map \<Rightarrow> freq_map" where
  "map_set k v [] = [(k, v)]"
| "map_set k v ((k', v') # es) = (if k' = k then (k, v) # es else (k', v') # map_set k v es)"

definition get_or_0 :: "freq_map \<Rightarrow> int \<Rightarrow> nat" where
  "get_or_0 freq k = (case map_of freq k of None \<Rightarrow> 0 | Some c \<Rightarrow> c)"

text \<open>The loop \<^verbatim>\<open>for (const combo of allCombos)\<close>; an exception of \<^verbatim>\<open>lagrangeAtZero\<close> leaves it.\<close>

fun tally :: "point list list \<Rightarrow> freq_map \<Rightarrow> error + freq_map" where
  "tally [] freq = Inr freq"
| "tally (combo # rest) freq =
     then_e (lagrangeAtZero combo) (\<lambda>secret.
       tally rest (map_set secret (get_or_0 freq secret + 1) freq))"

text \<open>The loop \<^verbatim>\<open>for (const [val, count] of freq.entries())\<close> on \<^verbatim>\<open>(best, bestCount)\<close>.\<close>

fun select_best :: "freq_map \<Rightarrow> int option \<times> nat \<Rightarrow> int option \<times> nat" where
  "select_best [] acc = acc"
| "select_best ((val, cnt) # es) (best, bestCount) =
     (if cnt > bestCount then select_best es (Some val, cnt)
      else select_best es (best, bestCount))"

record recovery =
  secret :: int
  count :: nat
  total_n :: nat

text \<open>
  \<open>None\<close>: the call never returns (\<^verbatim>\<open>combinations\<close> does not). \<open>Some (Inl e)\<close>: it throws
  \<open>e\<close>. The field \<open>total_n\<close> is the property \<^verbatim>\<open>total\<close> of the returned object.
\<close>

definition findSecret :: "point list \<Rightarrow> int \<Rightarrow> (error + recovery) option" where
  "findSecret points k =
     map_option (\<lambda>allCombos.
       then_e (tally allCombos []) (\<lambda>freq.
         case select_best freq (None, 0) of
           (None, bestCount) \<Rightarrow> Inl TypeError_null_to_BigInt
         | (Some best, bestCount) \<Rightarrow>
             Inr \<lparr>secret = best, count = bestCount, total_n = length allCombos\<rparr>))
       (combinations points k)"

section \<open>decodeValue (src/index.js, lines 19-27)\<close>

text \<open>
  A JavaScript string is the list of its code points, as the loop
  \<^verbatim>\<open>for (const char of ...)\<close> visits them (an unpaired surrogate is one item);
  \<open>js_string_of\<close> gives the string of an ASCII literal.

  \<open>toLowerCase\<close> is \<^verbatim>\<open>String.prototype.toLowerCase\<close>, the Unicode lower-case mapping,
  which works code point by code point: \<open>A..Z\<close> and the Latin-1 capitals go to their small
  letters, U+0130 (capital I with dot above) goes to the two code points \<open>i\<close>, U+0307,
  U+212A (KELVIN SIGN) goes to \<open>k\<close> and U+212B (ANGSTROM SIGN) to U+00E5. These are the
  only code points outside ASCII whose mapping reaches ASCII. Every other code point
  outside ASCII maps to one code point outside ASCII and is left in place here: the loop
  only passes the result to \<^verbatim>\<open>parseInt\<close>, which gives \<^verbatim>\<open>NaN\<close> on every code point outside
  ASCII. An ASCII character that is no capital letter is unchanged.

  \<open>parseInt\<close> is \<^verbatim>\<open>parseInt(char, radix)\<close> on a string of one code point, \<open>None\<close> for
  \<^verbatim>\<open>NaN\<close>: the radix is first converted to a 32-bit integer (\<open>ToInt32\<close>); 0 then reads
  as 10 and a radix outside 2..36 gives \<^verbatim>\<open>NaN\<close>, and so does a code point that is no
  digit of the radix (white space and signs included). \<open>base\<close> is a Number holding an
  integer of magnitude below \<open>10^21\<close>, which \<^verbatim>\<open>parseInt(base)\<close> returns unchanged and
  \<^verbatim>\<open>BigInt(base)\<close> converts exactly.
\<close>

type_synonym code_point = nat
type_synonym js_string = "code_point list"

definition js_string_of :: "string \<Rightarrow> js_string" where
  "js_string_of s = map of_char s"

definition toLowerCase_cp :: "code_point \<Rightarrow> code_point list" where
  "toLowerCase_cp c =
     (if 65 \<le> c \<and> c \<le> 90 then [c + 32]
      else if 192 \<le> c \<and> c \<le> 222 \<and> c \<noteq> 215 then [c + 32]
      else if c = 304 then [105, 775]
      else if c = 8490 then [107]
      else if c = 8491 then [229]
      else [c])"

definition toLowerCase :: "js_string \<Rightarrow> js_string" where
  "toLowerCase s = concat (map toLowerCase_cp s)"

definition digit_of_cp :: "code_point \<Rightarrow> nat option" where
  "digit_of_cp c =
     (if 48 \<le> c \<and> c \<le> 57 then Some (c - 48)
      else if 97 \<le> c \<and> c \<le> 122 then Some (c - 87)
      else if 65 \<le> c \<and> c \<le> 90 then Some (c - 55)
      else None)"

definition ToInt32 :: "int \<Rightarrow> int" where
  "ToInt32 n = (n + 2 ^ 31) mod 2 ^ 32 - 2 ^ 31"

definition parseInt :: "code_point \<Rightarrow> int \<Rightarrow> int option" where
  "parseInt c radix =
     (let R = (if ToInt32 radix = 0 then 10 else ToInt32 radix)
      in if R < 2 \<or> 36 < R then None
         else case digit_of_cp c of
                None \<Rightarrow> None
              | Some d \<Rightarrow> if int d < R then Some (int d) else None)"

fun decode_loop :: "int \<Rightarrow> js_string \<Rightarrow> int \<Rightarrow> error + int" where
  "decode_loop base [] result = Inr result"
| "decode_loop base (c # cs) result =
     (case parseInt c base of
        None \<Rightarrow> Inl RangeError_NaN_to_BigInt
      | Some digit \<Rightarrow> decode_loop base cs (result * base + digit))"

definition decodeValue :: "int \<Rightarrow> js_string \<Rightarrow> error + int" where
  "decodeValue base valueStr = decode_loop base (toLowerCase valueStr) 0"

section \<open>The class Fraction (src/unnamed/part_000, lines 9-53)\<close>

text \<open>
  \<^verbatim>\<open>BigInteger.gcd\<close> is the greatest common divisor of the absolute values (0 for two
  zeros), which is \<open>gcd\<close> on \<open>int\<close>; \<^verbatim>\<open>BigInteger.divide\<close> truncates toward zero and
  throws an ArithmeticException on a zero divisor.
\<close>

record Fraction =
  num :: int
  den :: int

definition BigInteger_divide :: "int \<Rightarrow> int \<Rightarrow> error + int" where
  "BigInteger_divide a b =
     (if b = 0 then Inl ArithmeticException_divide_by_zero else Inr (bigint_quot a b))"

definition Fraction_new :: "int \<Rightarrow> int \<Rightarrow> error + Fraction" where
  "Fraction_new n d =
     (if d = 0 then Inl ArithmeticException_Denominator_zero
      else let (n1, d1) = (if d < 0 then (- n, - d) else (n, d));
               g = gcd n1 d1
           in then_e (BigInteger_divide n1 g) (\<lambda>a.
              then_e (BigInteger_divide d1 g) (\<lambda>b.
              Inr \<lparr>num = a, den = b\<rparr>)))"

definition Fraction_add :: "Fraction \<Rightarrow> Fraction \<Rightarrow> error + Fraction" where
  "Fraction_add this f = Fraction_new (num this * den f + num f * den this) (den this * den f)"

definition Fraction_multiply :: "Fraction \<Rightarrow> Fraction \<Rightarrow> error + Fraction" where
  "Fraction_multiply this f = Fraction_new (num this * num f) (den this * den f)"

definition Fraction_subtract :: "Fraction \<Rightarrow> Fraction \<Rightarrow> error + Fraction" where
  "Fraction_subtract this f = then_e (Fraction_new (- num f) (den f)) (Fraction_add this)"

definition Fraction_divide :: "Fraction \<Rightarrow> Fraction \<Rightarrow> error + Fraction" where
  "Fraction_divide this f = Fraction_new (num this * den f) (den this * num f)"

section \<open>What the specification says, for comparison with the code\<close>

text \<open>
  The exact Lagrange value at 0 of the specification, as a rational number: the sum over
  the points \<open>i\<close> of \<open>y\<^sub>i\<close> times the product over \<open>j \<noteq> i\<close> of
  \<open>(0 - x\<^sub>j) / (x\<^sub>i - x\<^sub>j)\<close>.
\<close>

definition spec_lagrange_sum :: "point list \<Rightarrow> rat" where
  "spec_lagrange_sum points =
     (\<Sum>i<length points. of_int (y (points ! i)) *
        (\<Prod>j\<in>{..<length points} - {i}.
           of_int (0 - x (points ! j)) / of_int (x (points ! i) - x (points ! j))))"

definition truncate_toward_zero :: "rat \<Rightarrow> int" where
  "truncate_toward_zero q = (if q < 0 then \<lceil>q\<rceil> else \<lfloor>q\<rfloor>)"

text \<open>
  The digit value of the specification: \<open>'0'..'9'\<close> and, without regard to case,
  \<open>'a'..'z'\<close> map to \<open>0..35\<close>; and its positional fold
  \<open>result = result * base + digitValue(c)\<close> from the left, starting at 0.
\<close>

definition spec_lower :: "code_point \<Rightarrow> code_point" where
  "spec_lower c =
     (if of_char CHR ''A'' \<le> c \<and> c \<le> of_char CHR ''Z''
      then c - of_char CHR ''A'' + of_char CHR ''a'' else c)"

definition spec_digitValue :: "code_point \<Rightarrow> nat option" where
  "spec_digitValue c =
     (let l = spec_lower c
      in if of_char CHR ''0'' \<le> l \<and> l \<le> of_char CHR ''9'' then Some (l - of_char CHR ''0'')
         else if of_char CHR ''a'' \<le> l \<and> l \<le> of_char CHR ''z''
         then Some (10 + (l - of_char CHR ''a''))
         else None)"

definition spec_fold :: "int \<Rightarrow> int list \<Rightarrow> int" where
  "spec_fold base ds = foldl (\<lambda>result d. result * base + d) 0 ds"


text \<open>The canonical form of a fraction: a positive denominator, in lowest terms.\<close>

definition canonical :: "int \<Rightarrow> int \<Rightarrow> bool" where
  "canonical n d \<longleftrightarrow> 0 < d \<and> gcd \<bar>n\<bar> d = 1"

section \<open>Auxiliary notions of the proofs\<close>

text \<open>
  The outcome of a step of \<^verbatim>\<open>lagrangeAtZero\<close> once a zero denominator has entered the
  running fraction: either the RangeError of a division by zero, or a fraction whose
  denominator is still zero. \<open>frac_value\<close> is the rational number a fraction stands for.
\<close>

definition zero_den_or_throws :: "error + frac \<Rightarrow> bool" where
  "zero_den_or_throws r =
     (case r of Inl e \<Rightarrow> e = RangeError_Division_by_zero | Inr f \<Rightarrow> snd f = 0)"

definition frac_value :: "frac \<Rightarrow> rat" where
  "frac_value f = of_int (fst f) / of_int (snd f)"

text \<open>
  One pass of the tally loop of \<^verbatim>\<open>findSecret\<close> for a subset whose interpolation
  returned \<open>v\<close>: \<^verbatim>\<open>freq.set(secret, (freq.get(secret) || 0) + 1)\<close>.
\<close>

definition bump :: "int \<Rightarrow> freq_map \<Rightarrow> freq_map" where
  "bump v freq = map_set v (get_or_0 freq v + 1) freq"

section \<open>Majority vote on the example of the specification\<close>

text \<open>
  Claim C1. For the points \<open>(1,5), (2,7), (3,9)\<close> on \<open>f(x) = 2x + 3\<close> together with the
  corrupted point \<open>(4,99)\<close> and the threshold \<open>k = 2\<close>, \<open>findSecret\<close> returns the secret
  3, found in 3 of the 6 combinations.
\<close>

theorem findSecret_majority_example:
  "findSecret [\<lparr>x = 1, y = 5\<rparr>, \<lparr>x = 2, y = 7\<rparr>, \<lparr>x = 3, y = 9\<rparr>, \<lparr>x = 4, y = 99\<rparr>] 2
     = Some (Inr \<lparr>secret = 3, count = 3, total_n = 6\<rparr>)"
  by code_simp

section \<open>decodeValue against the positional fold of the specification\<close>

lemma ToInt32_small: "2 \<le> base \<Longrightarrow> base \<le> 36 \<Longrightarrow> ToInt32 base = base"
  by (simp add: ToInt32_def)

lemma parseInt_in_range:
  assumes "2 \<le> base" "base \<le> 36"
  shows "parseInt c base =
           (case digit_of_cp c of
              None \<Rightarrow> None
            | Some d \<Rightarrow> if int d < base then Some (int d) else None)"
  using assms by (simp add: parseInt_def ToInt32_small Let_def)

lemma lower_of_digit:
  assumes "spec_digitValue c = Some d"
  shows "toLowerCase_cp c = [spec_lower c]" and "digit_of_cp (spec_lower c) = Some d"
  using assms
  by (auto simp: spec_digitValue_def spec_lower_def toLowerCase_cp_def digit_of_cp_def Let_def
      split: if_splits)


lemma decode_loop_append:
  "decode_loop base (cs @ ds) acc =
     (case decode_loop base cs acc of Inl e \<Rightarrow> Inl e | Inr r \<Rightarrow> decode_loop base ds r)"
  by (induction cs arbitrary: acc) (auto split: option.splits)


lemma decode_loop_digits:
  assumes "2 \<le> base" "base \<le> 36"
    and "\<forall>c\<in>set digits. \<exists>d. spec_digitValue c = Some d \<and> int d < base"
  shows "decode_loop base (toLowerCase digits) acc =
           Inr (foldl (\<lambda>result d. result * base + d) acc
                  (map (\<lambda>c. int (the (spec_digitValue c))) digits))"
  using assms(3)
proof (induction digits arbitrary: acc)
  case Nil
  then show ?case by (simp add: toLowerCase_def)
next
  case (Cons c digits)
  then obtain d where d: "spec_digitValue c = Some d" "int d < base" by auto
  have "parseInt (spec_lower c) base = Some (int d)"
    using d lower_of_digit(2) [OF d(1)] by (simp add: parseInt_in_range [OF assms(1,2)])
  moreover have "toLowerCase (c # digits) = spec_lower c # toLowerCase digits"
    by (simp add: toLowerCase_def lower_of_digit(1) [OF d(1)])
  moreover have "\<forall>c\<in>set digits. \<exists>d. spec_digitValue c = Some d \<and> int d < base"
    using Cons.prems by simp
  ultimately show ?case using Cons.IH d(1) by simp
qed

text \<open>
  Claim C7. For every base from 2 to 36 and every sequence of characters whose digit
  values are all defined and below the base, \<open>decodeValue\<close> returns the positional fold
  \<open>result * base + digitValue(c)\<close> taken from the left; the empty sequence decodes to 0,
  \<open>decode(2, "101") = 5\<close> and \<open>decode(16, "ff") = 255\<close>.
\<close>

theorem decodeValue_positional:
  "(2 \<le> base \<and> base \<le> 36 \<and> (\<forall>c\<in>set digits. \<exists>d. spec_digitValue c = Some d \<and> int d < base)
      \<longrightarrow> decodeValue base digits =
            Inr (spec_fold base (map (\<lambda>c. int (the (spec_digitValue c))) digits)))
   \<and> decodeValue base [] = Inr 0
   \<and> decodeValue 2 (js_string_of ''101'') = Inr 5
   \<and> decodeValue 16 (js_string_of ''ff'') = Inr 255"
proof (intro conjI impI)
  assume h: "2 \<le> base \<and> base \<le> 36 \<and>
    (\<forall>c\<in>set digits. \<exists>d. spec_digitValue c = Some d \<and> int d < base)"
  then show "decodeValue base digits =
      Inr (spec_fold base (map (\<lambda>c. int (the (spec_digitValue c))) digits))"
    unfolding decodeValue_def spec_fold_def by (intro decode_loop_digits) simp_all
next
  show "decodeValue base [] = Inr 0" by (simp add: decodeValue_def toLowerCase_def)
next
  show "decodeValue 2 (js_string_of ''101'') = Inr 5" by code_simp
next
  show "decodeValue 16 (js_string_of ''ff'') = Inr 255" by code_simp
qed

theorem decodeValue_positional_witness:
  "decodeValue 16 (js_string_of ''1aF'') = Inr (spec_fold 16 [1, 10, 15])
   \<and> spec_fold 16 [1, 10, 15] = 431"
proof -
  have d: "spec_digitValue 49 = Some 1" "spec_digitValue 97 = Some 10"
    "spec_digitValue 70 = Some 15"
    by (simp_all add: spec_digitValue_def spec_lower_def)
  have s: "js_string_of ''1aF'' = [49, 97, 70]" by (simp add: js_string_of_def)
  have "decodeValue 16 [49, 97, 70] =
      Inr (spec_fold 16 (map (\<lambda>c. int (the (spec_digitValue c))) [49, 97, 70]))"
    using decodeValue_positional [of 16 "[49, 97, 70]"] d by simp
  then show ?thesis using d by (simp add: s spec_fold_def)
qed




section \<open>Fractions: the gcd loop, reduction to lowest terms\<close>

lemma bigint_quot_exact:
  assumes "g dvd a" "0 < g"
  shows "bigint_quot a g = a div g"
proof -
  obtain k where k: "a = g * k" using assms(1) by (auto simp: dvd_def)
  have "\<bar>a\<bar> div \<bar>g\<bar> = \<bar>k\<bar>" using assms(2) by (simp add: k abs_mult)
  moreover have "sgn a = sgn k" using assms(2) by (simp add: k sgn_mult)
  moreover have "sgn g = 1" using assms(2) by simp
  ultimately have "bigint_quot a g = sgn k * \<bar>k\<bar>" by (simp add: bigint_quot_def)
  also have "\<dots> = k" by (simp add: mult_sgn_abs)
  also have "\<dots> = a div g" using assms(2) by (simp add: k)
  finally show ?thesis .
qed

lemma bigint_rem_nonneg:
  assumes "0 \<le> a" "0 < b"
  shows "bigint_rem a b = a mod b"
proof (cases "a = 0")
  case True
  then show ?thesis by (simp add: bigint_rem_def bigint_quot_def)
next
  case False
  then have "sgn a = 1" "sgn b = 1" "\<bar>a\<bar> = a" "\<bar>b\<bar> = b" using assms by simp_all
  then show ?thesis
    by (simp add: bigint_rem_def bigint_quot_def minus_mult_div_eq_mod)
qed

lemma gcd_loop_eq_gcd: "0 \<le> a \<Longrightarrow> 0 \<le> b \<Longrightarrow> gcd_loop a b = gcd a b"
proof (induction a b rule: gcd_loop.induct)
  case (1 a b)
  show ?case
  proof (cases "b = 0")
    case True
    with "1.prems" show ?thesis by (simp add: gcd_loop.simps [of a 0])
  next
    case False
    with "1.prems" have pos: "0 < b" by simp
    have r: "bigint_rem a b = a mod b" using "1.prems" pos by (simp add: bigint_rem_nonneg)
    have "gcd_loop a b = gcd_loop b (a mod b)"
      using False r by (simp add: gcd_loop.simps [of a b])
    also have "\<dots> = gcd b (a mod b)"
      using "1.IH" [OF False] "1.prems" pos r by simp
    also have "\<dots> = gcd a b" by (rule gcd_red_int [symmetric])
    finally show ?thesis .
  qed
qed

lemma gcd_js_eq_gcd: "gcd_js a b = gcd a b"
proof -
  have "gcd_js a b = gcd_loop \<bar>a\<bar> \<bar>b\<bar>" by (simp add: gcd_js_def abs_if)
  then show ?thesis by (simp add: gcd_loop_eq_gcd)
qed

lemma simplify_zero_den:
  "simplify n 0 = (if n = 0 then Inl RangeError_Division_by_zero else Inr (sgn n, 0))"
proof -
  have g: "gcd_js (if n < 0 then - n else n) 0 = \<bar>n\<bar>"
    by (simp add: gcd_js_eq_gcd)
  have s: "simplify n 0 =
      then_e (bigint_div n \<bar>n\<bar>) (\<lambda>a. then_e (bigint_div 0 \<bar>n\<bar>) (\<lambda>b. Inr (a, b)))"
    by (simp add: simplify_def g Let_def)
  show ?thesis
  proof (cases "n = 0")
    case True
    show ?thesis unfolding s using True by (simp add: then_e_def bigint_div_def)
  next
    case False
    then have "bigint_quot n \<bar>n\<bar> = sgn n" "bigint_quot 0 \<bar>n\<bar> = 0"
      by (simp_all add: bigint_quot_def)
    with False show ?thesis unfolding s by (simp add: then_e_def bigint_div_def)
  qed
qed

lemma simplify_nonzero_den:
  assumes "d \<noteq> 0"
  shows "simplify n d = Inr ((sgn d * n) div gcd n d, \<bar>d\<bar> div gcd n d)"
proof -
  define g where "g = gcd n d"
  define n1 where "n1 = (if d < 0 then - n else n)"
  define d1 where "d1 = (if d < 0 then - d else d)"
  have gpos: "0 < g" using assms by (simp add: g_def)
  have n1: "n1 = sgn d * n" and d1: "d1 = \<bar>d\<bar>"
    using assms by (auto simp: n1_def d1_def)
  have dv: "g dvd n1" "g dvd d1" by (simp_all add: g_def n1_def d1_def)
  have "simplify n d =
      then_e (bigint_div n1 g) (\<lambda>a. then_e (bigint_div d1 g) (\<lambda>b. Inr (a, b)))"
    by (simp add: simplify_def n1_def d1_def Let_def gcd_js_eq_gcd g_def)
  also have "\<dots> = Inr (n1 div g, d1 div g)"
    using gpos bigint_quot_exact [OF dv(1) gpos] bigint_quot_exact [OF dv(2) gpos]
    by (simp add: then_e_def bigint_div_def)
  finally show ?thesis unfolding n1 d1 g_def .
qed
lemma lowest_terms:
  assumes "d \<noteq> 0"
  shows "canonical ((sgn d * n) div gcd n d) (\<bar>d\<bar> div gcd n d)"
    and "(of_int ((sgn d * n) div gcd n d) / of_int (\<bar>d\<bar> div gcd n d) :: rat)
           = of_int n / of_int d"
proof -
  define g where "g = gcd n d"
  have gpos: "0 < g" using assms by (simp add: g_def)
  have dv: "g dvd sgn d * n" "g dvd \<bar>d\<bar>" by (simp_all add: g_def)
  obtain n' where n': "sgn d * n = g * n'" using dv(1) by (auto simp: dvd_def)
  obtain d' where d': "\<bar>d\<bar> = g * d'" using dv(2) by (auto simp: dvd_def)
  have q: "(sgn d * n) div g = n'" "\<bar>d\<bar> div g = d'" using gpos by (simp_all add: n' d')
  have d'pos: "0 < d'" using assms gpos d' by (metis zero_less_abs_iff zero_less_mult_pos)
  have "gcd (sgn d * n) \<bar>d\<bar> = g" using assms by (simp add: g_def sgn_if)
  then have "g * gcd n' d' = g * 1"
    unfolding n' d' using gpos by (simp add: gcd_mult_left abs_mult)
  then have cop: "gcd n' d' = 1" using gpos by simp
  have "(of_int (sgn d * n) / of_int \<bar>d\<bar> :: rat) = of_int n / of_int d"
    using assms by (simp add: sgn_if abs_if)
  moreover have "(of_int (sgn d * n) / of_int \<bar>d\<bar> :: rat) = of_int n' / of_int d'"
    unfolding n' d' using gpos by simp
  ultimately have v: "(of_int n' / of_int d' :: rat) = of_int n / of_int d" by simp
  show "canonical ((sgn d * n) div gcd n d) (\<bar>d\<bar> div gcd n d)"
    using q d'pos cop by (simp add: g_def [symmetric] canonical_def)
  show "(of_int ((sgn d * n) div gcd n d) / of_int (\<bar>d\<bar> div gcd n d) :: rat)
           = of_int n / of_int d"
    using q v by (simp add: g_def [symmetric])
qed

lemma simplify_canonical:
  assumes "d \<noteq> 0"
  shows "\<exists>n' d'. simplify n d = Inr (n', d') \<and> canonical n' d' \<and>
           (of_int n' / of_int d' :: rat) = of_int n / of_int d"
  using simplify_nonzero_den [OF assms, of n] lowest_terms [OF assms, of n] by simp

lemma Fraction_new_nonzero_den:
  assumes "d \<noteq> 0"
  shows "Fraction_new n d = Inr \<lparr>num = (sgn d * n) div gcd n d, den = \<bar>d\<bar> div gcd n d\<rparr>"
proof -
  define g where "g = gcd n d"
  define n1 where "n1 = (if d < 0 then - n else n)"
  define d1 where "d1 = (if d < 0 then - d else d)"
  have gpos: "0 < g" using assms by (simp add: g_def)
  have n1: "n1 = sgn d * n" and d1: "d1 = \<bar>d\<bar>"
    using assms by (auto simp: n1_def d1_def)
  have dv: "g dvd n1" "g dvd d1" by (simp_all add: g_def n1_def d1_def)
  have "Fraction_new n d =
      then_e (BigInteger_divide n1 g) (\<lambda>a. then_e (BigInteger_divide d1 g) (\<lambda>b.
        Inr \<lparr>num = a, den = b\<rparr>))"
    using assms by (simp add: Fraction_new_def n1_def d1_def Let_def g_def)
  also have "\<dots> = Inr \<lparr>num = n1 div g, den = d1 div g\<rparr>"
    using gpos bigint_quot_exact [OF dv(1) gpos] bigint_quot_exact [OF dv(2) gpos]
    by (simp add: then_e_def BigInteger_divide_def)
  finally show ?thesis unfolding n1 d1 g_def .
qed

lemma Fraction_new_canonical:
  assumes "d \<noteq> 0"
  shows "\<exists>f. Fraction_new n d = Inr f \<and> canonical (num f) (den f)"
  using Fraction_new_nonzero_den [OF assms, of n] lowest_terms(1) [OF assms, of n] by simp

text \<open>
  Claim C6. Every fraction produced by construction or by an arithmetic operation
  (\<^verbatim>\<open>simplify\<close>, \<^verbatim>\<open>addFrac\<close>, \<^verbatim>\<open>mulFrac\<close> of the JavaScript program; the constructor,
  \<^verbatim>\<open>add\<close>, \<^verbatim>\<open>multiply\<close>, \<^verbatim>\<open>subtract\<close> and \<^verbatim>\<open>divide\<close> of the Java class), on operands
  with nonzero denominators, is in canonical form: its denominator is positive and
  coprime to its numerator. Constructing \<open>(4,8)\<close> gives \<open>(1,2)\<close>, \<open>(-4,8)\<close> gives
  \<open>(-1,2)\<close> and \<open>(4,-8)\<close> gives \<open>(-1,2)\<close>.
\<close>

theorem fractions_canonical:
  "(d \<noteq> 0 \<longrightarrow> (\<exists>n' d'. simplify n d = Inr (n', d') \<and> canonical n' d'))
   \<and> (d1 \<noteq> 0 \<and> d2 \<noteq> 0 \<longrightarrow>
        (\<exists>n' d'. addFrac (n1, d1) (n2, d2) = Inr (n', d') \<and> canonical n' d')
      \<and> (\<exists>n' d'. mulFrac (n1, d1) (n2, d2) = Inr (n', d') \<and> canonical n' d'))
   \<and> (d \<noteq> 0 \<longrightarrow> (\<exists>h. Fraction_new n d = Inr h \<and> canonical (num h) (den h)))
   \<and> (den f \<noteq> 0 \<and> den g \<noteq> 0 \<longrightarrow>
        (\<exists>h. Fraction_add f g = Inr h \<and> canonical (num h) (den h))
      \<and> (\<exists>h. Fraction_multiply f g = Inr h \<and> canonical (num h) (den h))
      \<and> (\<exists>h. Fraction_subtract f g = Inr h \<and> canonical (num h) (den h))
      \<and> (\<forall>h. Fraction_divide f g = Inr h \<longrightarrow> canonical (num h) (den h))
      \<and> (num g \<noteq> 0 \<longrightarrow> (\<exists>h. Fraction_divide f g = Inr h)))
   \<and> simplify 4 8 = Inr (1, 2) \<and> simplify (- 4) 8 = Inr (- 1, 2)
   \<and> simplify 4 (- 8) = Inr (- 1, 2)
   \<and> Fraction_new 4 8 = Inr \<lparr>num = 1, den = 2\<rparr>
   \<and> Fraction_new (- 4) 8 = Inr \<lparr>num = - 1, den = 2\<rparr>
   \<and> Fraction_new 4 (- 8) = Inr \<lparr>num = - 1, den = 2\<rparr>"
proof -
  have js: "\<exists>n' d'. simplify a b = Inr (n', d') \<and> canonical n' d'" if "b \<noteq> 0" for a b
    using simplify_canonical [OF that, of a] by blast
  have java: "\<exists>h. Fraction_new a b = Inr h \<and> canonical (num h) (den h)" if "b \<noteq> 0" for a b
    using that by (rule Fraction_new_canonical)
  have sub: "\<exists>h. Fraction_subtract f g = Inr h \<and> canonical (num h) (den h)"
    if nzf: "den f \<noteq> 0" and nzg: "den g \<noteq> 0"
  proof -
    obtain ng where ng: "Fraction_new (- num g) (den g) = Inr ng" "canonical (num ng) (den ng)"
      using java [OF nzg, of "- num g"] by blast
    then have "den ng \<noteq> 0" by (simp add: canonical_def)
    then have "den f * den ng \<noteq> 0" using nzf by simp
    from java [OF this] show ?thesis
      by (simp add: Fraction_subtract_def ng(1) then_e_def Fraction_add_def)
  qed
  have dv: "canonical (num h) (den h)" if "Fraction_divide f g = Inr h" for h
  proof (cases "den f * num g = 0")
    case True
    with that show ?thesis by (simp add: Fraction_divide_def Fraction_new_def)
  next
    case False
    from java [OF this, of "num f * den g"] that show ?thesis
      by (auto simp: Fraction_divide_def)
  qed
  have dvx: "\<exists>h. Fraction_divide f g = Inr h" if nzf: "den f \<noteq> 0" and nzn: "num g \<noteq> 0"
  proof -
    have "den f * num g \<noteq> 0" using nzf nzn by simp
    from java [OF this, of "num f * den g"] show ?thesis
      by (auto simp: Fraction_divide_def)
  qed
  have c1: "simplify 4 8 = Inr (1, 2)" by code_simp
  have c2: "simplify (- 4) 8 = Inr (- 1, 2)" by code_simp
  have c3: "simplify 4 (- 8) = Inr (- 1, 2)" by code_simp
  have c4: "Fraction_new 4 8 = Inr \<lparr>num = 1, den = 2\<rparr>" by code_simp
  have c5: "Fraction_new (- 4) 8 = Inr \<lparr>num = - 1, den = 2\<rparr>" by code_simp
  have c6: "Fraction_new 4 (- 8) = Inr \<lparr>num = - 1, den = 2\<rparr>" by code_simp
  show ?thesis
    using js java sub dv dvx c1 c2 c3 c4 c5 c6
    by (simp add: addFrac_def mulFrac_def Fraction_add_def Fraction_multiply_def)
qed

theorem fractions_canonical_witness:
  "simplify 6 (- 4) = Inr (- 3, 2) \<and> canonical (- 3) 2
   \<and> addFrac (1, 2) (1, 6) = Inr (2, 3) \<and> canonical 2 3
   \<and> mulFrac (2, 3) (3, 4) = Inr (1, 2) \<and> canonical 1 2
   \<and> Fraction_new 6 (- 4) = Inr \<lparr>num = - 3, den = 2\<rparr>
   \<and> Fraction_add \<lparr>num = 1, den = 2\<rparr> \<lparr>num = 1, den = 6\<rparr> = Inr \<lparr>num = 2, den = 3\<rparr>
   \<and> Fraction_multiply \<lparr>num = 2, den = 3\<rparr> \<lparr>num = 3, den = 4\<rparr> = Inr \<lparr>num = 1, den = 2\<rparr>
   \<and> Fraction_subtract \<lparr>num = 1, den = 2\<rparr> \<lparr>num = 1, den = 6\<rparr> = Inr \<lparr>num = 1, den = 3\<rparr>
   \<and> Fraction_divide \<lparr>num = 1, den = 2\<rparr> \<lparr>num = - 3, den = 4\<rparr> = Inr \<lparr>num = - 2, den = 3\<rparr>
   \<and> canonical (- 2) 3"
proof -
  have e1: "simplify 6 (- 4) = Inr (- 3, 2)" by code_simp
  have e2: "addFrac (1, 2) (1, 6) = Inr (2, 3)" by code_simp
  have e3: "mulFrac (2, 3) (3, 4) = Inr (1, 2)" by code_simp
  have e4: "Fraction_new 6 (- 4) = Inr \<lparr>num = - 3, den = 2\<rparr>" by code_simp
  have e5: "Fraction_add \<lparr>num = 1, den = 2\<rparr> \<lparr>num = 1, den = 6\<rparr> = Inr \<lparr>num = 2, den = 3\<rparr>"
    by code_simp
  have e6: "Fraction_multiply \<lparr>num = 2, den = 3\<rparr> \<lparr>num = 3, den = 4\<rparr> = Inr \<lparr>num = 1, den = 2\<rparr>"
    by code_simp
  have e7: "Fraction_subtract \<lparr>num = 1, den = 2\<rparr> \<lparr>num = 1, den = 6\<rparr> = Inr \<lparr>num = 1, den = 3\<rparr>"
    by code_simp
  have e8: "Fraction_divide \<lparr>num = 1, den = 2\<rparr> \<lparr>num = - 3, den = 4\<rparr> = Inr \<lparr>num = - 2, den = 3\<rparr>"
    by code_simp
  have k1: "canonical (- 3) 2"
    using fractions_canonical [where d = "- 4" and n = 6] e1 by simp
  have k2: "canonical 2 3"
    using fractions_canonical [where ?d1.0 = 2 and ?d2.0 = 6 and ?n1.0 = 1 and ?n2.0 = 1] e2 by simp
  have k3: "canonical 1 2"
    using fractions_canonical [where ?d1.0 = 3 and ?d2.0 = 4 and ?n1.0 = 2 and ?n2.0 = 3] e3 by simp
  have k4: "canonical (- 2) 3"
    using fractions_canonical [where f = "\<lparr>num = 1, den = 2\<rparr>" and g = "\<lparr>num = - 3, den = 4\<rparr>"] e8
    by simp
  show ?thesis using e1 e2 e3 e4 e5 e6 e7 e8 k1 k2 k3 k4 by simp
qed

section \<open>lagrangeAtZero: what the two loops compute\<close>

lemma fold_pair_products:
  "fold (\<lambda>j (a, b). if P j then (a * f j, b * g j) else (a, b)) js (a0, b0)
     = (a0 * prod_list (map f (filter P js)), b0 * prod_list (map g (filter P js)))"
  for a0 b0 :: int
  by (induction js arbitrary: a0 b0) (simp_all add: mult.assoc)

lemma inner_loop_products:
  "inner_loop points i =
     (\<Prod>j\<in>{..<length points} - {i}. 0 - x (points ! j),
      \<Prod>j\<in>{..<length points} - {i}. x (points ! i) - x (points ! j))"
proof -
  let ?js = "filter (\<lambda>j. i \<noteq> j) [0..<length points]"
  have d: "distinct ?js" by simp
  have s: "set ?js = {..<length points} - {i}" by auto
  have "inner_loop points i =
      (prod_list (map (\<lambda>j. 0 - x (points ! j)) ?js),
       prod_list (map (\<lambda>j. x (points ! i) - x (points ! j)) ?js))"
    unfolding inner_loop_def by (simp add: fold_pair_products)
  then show ?thesis
    unfolding prod.distinct_set_conv_list [OF d, symmetric] s by simp
qed

lemma inner_loop_den_zero_iff:
  "snd (inner_loop points i) = 0 \<longleftrightarrow>
     (\<exists>j<length points. j \<noteq> i \<and> x (points ! i) = x (points ! j))"
  by (auto simp: inner_loop_products)

lemma duplicate_gives_zero_den:
  assumes "\<not> distinct (map x points)"
  shows "\<exists>i<length points. snd (inner_loop points i) = 0"
proof -
  from assms obtain i j where "i < length points" "j < length points" "i \<noteq> j"
    "map x points ! i = map x points ! j"
    by (auto simp: distinct_conv_nth)
  then show ?thesis
    unfolding inner_loop_den_zero_iff by (metis nth_map)
qed

lemma distinct_gives_nonzero_den:
  assumes "distinct (map x points)" "i < length points"
  shows "snd (inner_loop points i) \<noteq> 0"
proof
  assume "snd (inner_loop points i) = 0"
  then obtain j where "j < length points" "j \<noteq> i" "x (points ! i) = x (points ! j)"
    unfolding inner_loop_den_zero_iff by blast
  then show False using assms by (auto simp: distinct_conv_nth)
qed

section \<open>lagrangeAtZero on points that share an abscissa\<close>

lemma simplify_error: "simplify n d = Inl e \<Longrightarrow> e = RangeError_Division_by_zero"
  by (cases "d = 0") (auto simp: simplify_zero_den simplify_nonzero_den split: if_splits)

lemma simplify_zero_den_or_throws: "zero_den_or_throws (simplify n 0)"
  by (simp add: simplify_zero_den zero_den_or_throws_def)

lemma mulFrac_error: "mulFrac f1 f2 = Inl e \<Longrightarrow> e = RangeError_Division_by_zero"
  by (cases f1; cases f2) (auto simp: mulFrac_def dest: simplify_error)

lemma addFrac_error: "addFrac f1 f2 = Inl e \<Longrightarrow> e = RangeError_Division_by_zero"
  by (cases f1; cases f2) (auto simp: addFrac_def dest: simplify_error)

lemma mulFrac_zero_den: "snd f2 = 0 \<Longrightarrow> zero_den_or_throws (mulFrac f1 f2)"
  by (cases f1; cases f2) (simp add: mulFrac_def simplify_zero_den_or_throws)

lemma addFrac_zero_den:
  "snd f1 = 0 \<or> snd f2 = 0 \<Longrightarrow> zero_den_or_throws (addFrac f1 f2)"
  by (cases f1; cases f2) (auto simp: addFrac_def simplify_zero_den_or_throws)

lemma outer_loop_error:
  "outer_loop points is result = Inl e \<Longrightarrow> e = RangeError_Division_by_zero"
proof (induction "is" arbitrary: result)
  case Nil
  then show ?case by simp
next
  case (Cons i "is")
  then show ?case
    by (auto simp: then_e_def split: sum.splits prod.splits
        dest: simplify_error mulFrac_error addFrac_error)
qed

lemma outer_loop_zero_den_stays:
  "snd result = 0 \<Longrightarrow> zero_den_or_throws (outer_loop points is result)"
proof (induction "is" arbitrary: result)
  case Nil
  then show ?case by (simp add: zero_den_or_throws_def)
next
  case (Cons i "is")
  obtain nm dn where il: "inner_loop points i = (nm, dn)" by (cases "inner_loop points i")
  show ?case
  proof (cases "simplify nm dn")
    case (Inl e)
    then show ?thesis
      using simplify_error [OF Inl] by (simp add: il then_e_def zero_den_or_throws_def)
  next
    case s: (Inr s)
    show ?thesis
    proof (cases "mulFrac (y (points ! i), 1) s")
      case (Inl e)
      then show ?thesis
        using mulFrac_error [OF Inl] by (simp add: il s then_e_def zero_den_or_throws_def)
    next
      case m: (Inr m)
      have z: "zero_den_or_throws (addFrac result m)"
        using Cons.prems by (simp add: addFrac_zero_den)
      show ?thesis
      proof (cases "addFrac result m")
        case (Inl e)
        then show ?thesis
          using addFrac_error [OF Inl] by (simp add: il s m then_e_def zero_den_or_throws_def)
      next
        case (Inr r')
        with z have "snd r' = 0" by (simp add: zero_den_or_throws_def)
        from Cons.IH [OF this] show ?thesis by (simp add: il s m Inr then_e_def)
      qed
    qed
  qed
qed

lemma outer_loop_hits_zero_den:
  "i \<in> set is \<Longrightarrow> snd (inner_loop points i) = 0 \<Longrightarrow>
     zero_den_or_throws (outer_loop points is result)"
proof (induction "is" arbitrary: result)
  case Nil
  then show ?case by simp
next
  case (Cons j "is")
  obtain nm dn where il: "inner_loop points j = (nm, dn)" by (cases "inner_loop points j")
  show ?case
  proof (cases "simplify nm dn")
    case (Inl e)
    then show ?thesis
      using simplify_error [OF Inl] by (simp add: il then_e_def zero_den_or_throws_def)
  next
    case s: (Inr s)
    show ?thesis
    proof (cases "mulFrac (y (points ! j), 1) s")
      case (Inl e)
      then show ?thesis
        using mulFrac_error [OF Inl] by (simp add: il s then_e_def zero_den_or_throws_def)
    next
      case m: (Inr m)
      show ?thesis
      proof (cases "addFrac result m")
        case (Inl e)
        then show ?thesis
          using addFrac_error [OF Inl] by (simp add: il s m then_e_def zero_den_or_throws_def)
      next
        case r': (Inr r')
        have step: "outer_loop points (j # is) result = outer_loop points is r'"
          by (simp add: il s m r' then_e_def)
        show ?thesis
        proof (cases "j = i")
          case True
          with Cons.prems il have "dn = 0" by simp
          then have "snd s = 0"
            using simplify_zero_den_or_throws [of nm] s by (simp add: zero_den_or_throws_def)
          then have "snd m = 0"
            using mulFrac_zero_den [of s "(y (points ! j), 1)"] m
            by (simp add: zero_den_or_throws_def)
          then have "snd r' = 0"
            using addFrac_zero_den [of result m] r' by (simp add: zero_den_or_throws_def)
          then show ?thesis unfolding step by (rule outer_loop_zero_den_stays)
        next
          case False
          with Cons.prems have "i \<in> set is" by simp
          from Cons.IH [OF this Cons.prems(2)] show ?thesis unfolding step .
        qed
      qed
    qed
  qed
qed

text \<open>
  Claim C3, as the code has it. When two points of the input share the same \<open>x\<close>,
  \<open>lagrangeAtZero\<close> never returns a result: it throws, and the exception is the
  RangeError of a BigInt division by zero. No test for equal abscissas precedes the
  divisions.
\<close>

theorem lagrangeAtZero_duplicate:
  assumes "\<not> distinct (map x points)"
  shows "lagrangeAtZero points = Inl RangeError_Division_by_zero"
proof -
  obtain i where i: "i < length points" "snd (inner_loop points i) = 0"
    using duplicate_gives_zero_den [OF assms] by blast
  then have "i \<in> set [0..<length points]" by simp
  then have "zero_den_or_throws (outer_loop points [0..<length points] (0, 1))"
    using i(2) by (rule outer_loop_hits_zero_den)
  then show ?thesis
    by (auto simp: lagrangeAtZero_def then_e_def zero_den_or_throws_def bigint_div_def
        split: sum.splits)
qed

theorem lagrangeAtZero_duplicate_witness:
  "lagrangeAtZero [\<lparr>x = 1, y = 5\<rparr>, \<lparr>x = 2, y = 7\<rparr>, \<lparr>x = 1, y = 9\<rparr>]
     = Inl RangeError_Division_by_zero"
  using lagrangeAtZero_duplicate [of "[\<lparr>x = 1, y = 5\<rparr>, \<lparr>x = 2, y = 7\<rparr>, \<lparr>x = 1, y = 9\<rparr>]"]
  by simp

text \<open>
  The claim as the specification states it fails: no error is signalled before the
  divisions. On \<open>(1,5), (1,7)\<close> the first denominator is 0; \<^verbatim>\<open>simplify\<close>, \<^verbatim>\<open>mulFrac\<close>
  and \<^verbatim>\<open>addFrac\<close> carry out their divisions on it and return, and the exception is the
  one of the operator \<^verbatim>\<open>/\<close> itself.
\<close>

theorem duplicate_abscissa_divisions_attempted:
  "inner_loop [\<lparr>x = 1, y = 5\<rparr>, \<lparr>x = 1, y = 7\<rparr>] 0 = (- 1, 0)
   \<and> simplify (- 1) 0 = Inr (- 1, 0)
   \<and> mulFrac (5, 1) (- 1, 0) = Inr (- 1, 0)
   \<and> addFrac (0, 1) (- 1, 0) = Inr (- 1, 0)
   \<and> lagrangeAtZero [\<lparr>x = 1, y = 5\<rparr>, \<lparr>x = 1, y = 7\<rparr>] = Inl RangeError_Division_by_zero"
  by code_simp

section \<open>lagrangeAtZero on points with distinct abscissas\<close>

lemma simplify_value:
  assumes "d \<noteq> 0"
  shows "\<exists>r. simplify n d = Inr r \<and> 0 < snd r \<and> frac_value r = of_int n / of_int d"
  using simplify_canonical [OF assms, of n] by (auto simp: canonical_def frac_value_def)

lemma mulFrac_value:
  assumes "snd f1 \<noteq> 0" "snd f2 \<noteq> 0"
  shows "\<exists>r. mulFrac f1 f2 = Inr r \<and> 0 < snd r \<and> frac_value r = frac_value f1 * frac_value f2"
proof -
  obtain n1 d1 n2 d2 where f: "f1 = (n1, d1)" "f2 = (n2, d2)" by (cases f1; cases f2) auto
  have "d1 * d2 \<noteq> 0" using assms f by simp
  from simplify_value [OF this, of "n1 * n2"] show ?thesis
    by (simp add: mulFrac_def f frac_value_def)
qed

lemma addFrac_value:
  assumes "snd f1 \<noteq> 0" "snd f2 \<noteq> 0"
  shows "\<exists>r. addFrac f1 f2 = Inr r \<and> 0 < snd r \<and> frac_value r = frac_value f1 + frac_value f2"
proof -
  obtain n1 d1 n2 d2 where f: "f1 = (n1, d1)" "f2 = (n2, d2)" by (cases f1; cases f2) auto
  have nz: "d1 \<noteq> 0" "d2 \<noteq> 0" using assms f by simp_all
  then have "d1 * d2 \<noteq> 0" by simp
  from simplify_value [OF this, of "n1 * d2 + n2 * d1"]
  obtain r where r: "simplify (n1 * d2 + n2 * d1) (d1 * d2) = Inr r" "0 < snd r"
    "frac_value r = of_int (n1 * d2 + n2 * d1) / of_int (d1 * d2)" by blast
  have "(of_int (n1 * d2 + n2 * d1) / of_int (d1 * d2) :: rat)
      = of_int n1 / of_int d1 + of_int n2 / of_int d2"
    using nz by (simp add: field_simps)
  with r show ?thesis by (simp add: addFrac_def f frac_value_def)
qed

lemma outer_loop_value:
  assumes "\<forall>i\<in>set is. snd (inner_loop points i) \<noteq> 0" "0 < snd result"
  shows "\<exists>r. outer_loop points is result = Inr r \<and> 0 < snd r \<and>
           frac_value r = frac_value result +
             (\<Sum>i\<leftarrow>is. of_int (y (points ! i)) * frac_value (inner_loop points i))"
  using assms
proof (induction "is" arbitrary: result)
  case Nil
  then show ?case by simp
next
  case (Cons i "is")
  obtain nm dn where il: "inner_loop points i = (nm, dn)" by (cases "inner_loop points i")
  have dn: "dn \<noteq> 0" using Cons.prems(1) il by simp
  from simplify_value [OF dn, of nm] obtain s where
    s: "simplify nm dn = Inr s" "0 < snd s" "frac_value s = of_int nm / of_int dn" by blast
  from mulFrac_value [of "(y (points ! i), 1)" s] s(2) obtain m where
    m: "mulFrac (y (points ! i), 1) s = Inr m" "0 < snd m"
       "frac_value m = frac_value (y (points ! i), 1) * frac_value s" by auto
  from addFrac_value [of result m] Cons.prems(2) m(2) obtain r' where
    r': "addFrac result m = Inr r'" "0 < snd r'" "frac_value r' = frac_value result + frac_value m"
    by auto
  have step: "outer_loop points (i # is) result = outer_loop points is r'"
    by (simp add: il s(1) m(1) r'(1) then_e_def)
  have "\<forall>i\<in>set is. snd (inner_loop points i) \<noteq> 0" using Cons.prems(1) by simp
  then obtain r where r: "outer_loop points is r' = Inr r" "0 < snd r"
    "frac_value r = frac_value r' +
       (\<Sum>i\<leftarrow>is. of_int (y (points ! i)) * frac_value (inner_loop points i))"
    using Cons.IH [of r'] r'(2) by blast
  have "frac_value m = of_int (y (points ! i)) * frac_value (inner_loop points i)"
    unfolding m(3) s(3) il by (simp add: frac_value_def)
  then show ?case unfolding step using r r'(3) by simp
qed

lemma bigint_quot_truncates:
  assumes "0 < d"
  shows "bigint_quot n d = truncate_toward_zero (of_int n / of_int d)"
proof (cases "n < 0")
  case True
  have "(of_int n / of_int d :: rat) < 0"
    using True assms by (simp add: divide_neg_pos)
  moreover have "\<lceil>(of_int n / of_int d :: rat)\<rceil> = - \<lfloor>(of_int (- n) / of_int d :: rat)\<rfloor>"
    by (simp add: ceiling_def)
  moreover have "\<lfloor>(of_int (- n) / of_int d :: rat)\<rfloor> = (- n) div d"
    by (rule floor_divide_of_int_eq)
  moreover have "bigint_quot n d = - ((- n) div d)"
    using True assms by (simp add: bigint_quot_def)
  ultimately show ?thesis by (simp add: truncate_toward_zero_def)
next
  case False
  have "\<not> (of_int n / of_int d :: rat) < 0"
    using False assms by (simp add: divide_less_0_iff)
  moreover have "\<lfloor>(of_int n / of_int d :: rat)\<rfloor> = n div d"
    by (rule floor_divide_of_int_eq)
  moreover have "bigint_quot n d = n div d"
    using False assms by (cases "n = 0") (simp_all add: bigint_quot_def)
  ultimately show ?thesis by (simp add: truncate_toward_zero_def)
qed

lemma frac_value_inner_loop:
  "frac_value (inner_loop points i) =
     (\<Prod>j\<in>{..<length points} - {i}.
        of_int (0 - x (points ! j)) / of_int (x (points ! i) - x (points ! j)))"
  unfolding inner_loop_products frac_value_def fst_conv snd_conv of_int_prod
  by (rule prod_dividef [symmetric])

lemma lagrangeAtZero_distinct:
  assumes "distinct (map x points)"
  shows "lagrangeAtZero points = Inr (truncate_toward_zero (spec_lagrange_sum points))"
proof -
  have "\<forall>i\<in>set [0..<length points]. snd (inner_loop points i) \<noteq> 0"
    using distinct_gives_nonzero_den [OF assms] by simp
  moreover have "0 < snd (0 :: int, 1 :: int)" by simp
  ultimately obtain r where r: "outer_loop points [0..<length points] (0, 1) = Inr r"
    "0 < snd r"
    "frac_value r = frac_value (0, 1) +
       (\<Sum>i\<leftarrow>[0..<length points]. of_int (y (points ! i)) * frac_value (inner_loop points i))"
    using outer_loop_value [of "[0..<length points]" points "(0, 1)"] by blast
  have "frac_value r = spec_lagrange_sum points"
    unfolding r(3) spec_lagrange_sum_def frac_value_inner_loop
    by (simp add: frac_value_def interv_sum_list_conv_sum_set_nat atLeast0LessThan)
  then have "bigint_quot (fst r) (snd r) = truncate_toward_zero (spec_lagrange_sum points)"
    using bigint_quot_truncates [OF r(2), of "fst r"] by (simp add: frac_value_def)
  then show ?thesis
    using r(1) r(2) by (simp add: lagrangeAtZero_def then_e_def bigint_div_def)
qed

lemma spec_lagrange_sum_set:
  assumes "distinct (map x points)"
  shows "spec_lagrange_sum points =
     (\<Sum>p\<in>set points. of_int (y p) *
        (\<Prod>q\<in>set points - {p}. of_int (0 - x q) / of_int (x p - x q)))"
proof -
  let ?n = "length points"
  have d: "distinct points" using assms by (simp add: distinct_map)
  have bij: "bij_betw ((!) points) {..<?n} (set points)"
    using d by (rule bij_betw_nth) simp_all
  have inner: "(\<Prod>j\<in>{..<?n} - {i}. of_int (0 - x (points ! j)) / of_int (x (points ! i) - x (points ! j)) :: rat)
      = (\<Prod>q\<in>set points - {points ! i}. of_int (0 - x q) / of_int (x (points ! i) - x q))"
    if "i < ?n" for i
  proof -
    have "bij_betw ((!) points) ({..<?n} - {i}) (set points - {points ! i})"
      using bij by (rule bij_betw_DiffI) (use that in simp_all)
    then show ?thesis
      by (rule prod.reindex_bij_betw)
  qed
  have "spec_lagrange_sum points =
      (\<Sum>i\<in>{..<?n}. of_int (y (points ! i)) *
        (\<Prod>q\<in>set points - {points ! i}. of_int (0 - x q) / of_int (x (points ! i) - x q)))"
    unfolding spec_lagrange_sum_def by (rule sum.cong [OF refl]) (simp only: inner lessThan_iff)
  also have "\<dots> = (\<Sum>p\<in>set points. of_int (y p) *
        (\<Prod>q\<in>set points - {p}. of_int (0 - x q) / of_int (x p - x q)))"
    using bij by (rule sum.reindex_bij_betw)
  finally show ?thesis .
qed

lemma spec_lagrange_sum_permutation:
  assumes "distinct (map x points)" "mset points' = mset points"
  shows "spec_lagrange_sum points' = spec_lagrange_sum points"
proof -
  have "mset (map x points') = mset (map x points)" using assms(2) by simp
  then have d': "distinct (map x points')" using assms(1) by (metis mset_eq_imp_distinct_iff)
  have "set points' = set points" using assms(2) by (rule mset_eq_setD)
  then show ?thesis
    by (simp add: spec_lagrange_sum_set [OF assms(1)] spec_lagrange_sum_set [OF d'])
qed

text \<open>
  Claim C2. For every list of points with pairwise distinct \<open>x\<close> values and every
  permutation of that list, \<open>lagrangeAtZero\<close> returns on the permuted list the same
  integer as on the original list.
\<close>

theorem lagrangeAtZero_order_invariant:
  assumes "distinct (map x points)" and "mset points' = mset points"
  shows "\<exists>v. lagrangeAtZero points = Inr v \<and> lagrangeAtZero points' = Inr v"
proof -
  have "mset (map x points') = mset (map x points)" using assms(2) by simp
  then have d': "distinct (map x points')" using assms(1) by (metis mset_eq_imp_distinct_iff)
  show ?thesis
    using lagrangeAtZero_distinct [OF assms(1)] lagrangeAtZero_distinct [OF d']
      spec_lagrange_sum_permutation [OF assms]
    by simp
qed

theorem lagrangeAtZero_order_invariant_witness:
  "lagrangeAtZero [\<lparr>x = 1, y = 5\<rparr>, \<lparr>x = 2, y = 7\<rparr>, \<lparr>x = 3, y = 10\<rparr>] = Inr 4
   \<and> lagrangeAtZero [\<lparr>x = 3, y = 10\<rparr>, \<lparr>x = 1, y = 5\<rparr>, \<lparr>x = 2, y = 7\<rparr>] = Inr 4"
proof -
  have a: "lagrangeAtZero [\<lparr>x = 1, y = 5\<rparr>, \<lparr>x = 2, y = 7\<rparr>, \<lparr>x = 3, y = 10\<rparr>] = Inr 4"
    by code_simp
  have d: "distinct (map x [\<lparr>x = 1, y = 5\<rparr>, \<lparr>x = 2, y = 7\<rparr>, \<lparr>x = 3, y = 10\<rparr>])"
    by simp
  have p: "mset [\<lparr>x = 3, y = 10\<rparr>, \<lparr>x = 1, y = 5\<rparr>, \<lparr>x = 2, y = 7\<rparr>]
      = mset [\<lparr>x = 1, y = 5\<rparr>, \<lparr>x = 2, y = 7\<rparr>, \<lparr>x = 3, y = 10\<rparr>]"
    by simp
  from lagrangeAtZero_order_invariant [OF d p] a show ?thesis by simp
qed

lemma sum_example: "spec_lagrange_sum [\<lparr>x = 1, y = 5\<rparr>, \<lparr>x = 4, y = 99\<rparr>] = - 79 / 3"
  by (simp add: spec_lagrange_sum_def lessThan_Suc numeral_2_eq_2 insert_Diff_if)

lemma not_int: "(- 79 / 3 :: rat) \<notin> \<int>"
proof
  assume "(- 79 / 3 :: rat) \<in> \<int>"
  then obtain z :: int where "(- 79 / 3 :: rat) = of_int z" by (auto elim: Ints_cases)
  then have "(of_int (- 79) :: rat) = of_int (3 * z)" by simp
  then have "- 79 = 3 * z" by (simp only: of_int_eq_iff)
  then show False by presburger
qed

text \<open>
  Claim C4. For an input whose exact rational Lagrange sum at 0 is no integer, the
  interpolation is to report an error and not to return a rounded or truncated integer.
  The code does otherwise: its last statement \<^verbatim>\<open>return result[0] / result[1]\<close> is a
  truncating BigInt division, although the comment above the function announces an
  exact (lossless) computation of \<open>f(0)\<close>. At \<open>(1,5), (4,99)\<close> the exact sum is \<open>-79/3\<close>,
  which is no integer, and \<open>lagrangeAtZero\<close> returns \<open>-26\<close>.
\<close>

theorem non_integer_sum_is_truncated:
  "spec_lagrange_sum [\<lparr>x = 1, y = 5\<rparr>, \<lparr>x = 4, y = 99\<rparr>] = - 79 / 3
   \<and> (- 79 / 3 :: rat) \<notin> \<int>
   \<and> lagrangeAtZero [\<lparr>x = 1, y = 5\<rparr>, \<lparr>x = 4, y = 99\<rparr>] = Inr (- 26)"
proof -
  have "lagrangeAtZero [\<lparr>x = 1, y = 5\<rparr>, \<lparr>x = 4, y = 99\<rparr>] = Inr (- 26)" by code_simp
  then show ?thesis using sum_example not_int by simp
qed

text \<open>
  The truncation changes the outcome of the vote. On \<open>(1,6), (10,5), (20,5), (30,5)\<close>
  with \<open>k = 2\<close> the three subsets that hold the corrupted point \<open>(1,6)\<close> have the sums
  \<open>55/9\<close>, \<open>115/19\<close> and \<open>175/29\<close>; each is truncated to 6, and 6 is returned ahead of the
  secret 5 of the three correct subsets.
\<close>

lemma truncation_outvotes_the_secret:
  "map lagrangeAtZero
     [[\<lparr>x = 1, y = 6\<rparr>, \<lparr>x = 10, y = 5\<rparr>], [\<lparr>x = 1, y = 6\<rparr>, \<lparr>x = 20, y = 5\<rparr>],
      [\<lparr>x = 1, y = 6\<rparr>, \<lparr>x = 30, y = 5\<rparr>]] = [Inr 6, Inr 6, Inr 6]
   \<and> findSecret [\<lparr>x = 1, y = 6\<rparr>, \<lparr>x = 10, y = 5\<rparr>, \<lparr>x = 20, y = 5\<rparr>, \<lparr>x = 30, y = 5\<rparr>] 2
       = Some (Inr \<lparr>secret = 6, count = 3, total_n = 6\<rparr>)"
  by code_simp

section \<open>combinations: the subsets of a given size, in order\<close>

lemma combinations_Some_nonneg:
  assumes "combinations arr r = Some cs"
  shows "0 \<le> r"
proof (rule combinations.raw_induct [where P = "\<lambda>arr r cs. 0 \<le> r", OF _ assms], goal_cases)
  case (1 f arr r cs)
  show ?case
  proof (cases "r = 0 \<or> int (length arr) < r")
    case True
    then show ?thesis by auto
  next
    case False
    with 1(2) obtain w where "f (tl arr) (r - 1) = Some w"
      by (auto simp: bind_eq_Some_conv)
    then have "0 \<le> r - 1" by (rule 1(1))
    then show ?thesis by simp
  qed
qed

lemma combinations_negative: "r < 0 \<Longrightarrow> combinations arr r = None"
  using combinations_Some_nonneg [of arr r] by (cases "combinations arr r") auto

lemma subseqs_length_le: "c \<in> set (subseqs xs) \<Longrightarrow> length c \<le> length xs"
  by (induction xs arbitrary: c) (auto simp: Let_def le_SucI)

lemma filter_subseqs_Nil: "filter (\<lambda>c. c = []) (subseqs xs) = [[]]"
  by (induction xs) (simp_all add: Let_def filter_map comp_def)

lemma filter_subseqs_Cons:
  "filter (\<lambda>c. length c = Suc k) (subseqs (a # xs)) =
     map (Cons a) (filter (\<lambda>c. length c = k) (subseqs xs)) @
     filter (\<lambda>c. length c = Suc k) (subseqs xs)"
  by (simp add: Let_def filter_map comp_def)

lemma combinations_eq_subseqs:
  "0 \<le> r \<Longrightarrow> combinations arr r = Some (filter (\<lambda>c. length c = nat r) (subseqs arr))"
proof (induction arr arbitrary: r)
  case Nil
  then show ?case by (auto simp: combinations.simps [of "[]" r])
next
  case (Cons a arr)
  show ?case
  proof (cases "r = 0")
    case True
    then show ?thesis
      using filter_subseqs_Nil [of "a # arr"] by (simp add: combinations.simps [of "a # arr" 0])
  next
    case False
    with Cons.prems have pos: "0 < r" by simp
    then obtain k where k: "nat r = Suc k" "nat (r - 1) = k"
      by (metis Suc_nat_eq_nat_zadd1 add.commute diff_add_cancel zle_diff1_eq)
    show ?thesis
    proof (cases "int (length (a # arr)) < r")
      case True
      then have "\<forall>c\<in>set (subseqs (a # arr)). length c \<noteq> nat r"
        using subseqs_length_le [of _ "a # arr"] by fastforce
      then have "filter (\<lambda>c. length c = nat r) (subseqs (a # arr)) = []"
        by (simp only: filter_empty_conv)
      with True False show ?thesis by (simp add: combinations.simps [of "a # arr" r])
    next
      case large: False
      have r1: "0 \<le> r - 1" using pos by simp
      show ?thesis
        using False large Cons.IH [OF r1] Cons.IH [OF Cons.prems]
        by (simp add: combinations.simps [of "a # arr" r] k filter_subseqs_Cons del: subseqs.simps)
    qed
  qed
qed

lemma length_filter_subseqs:
  "length (filter (\<lambda>c. length c = k) (subseqs xs)) = length xs choose k"
proof (induction xs arbitrary: k)
  case Nil
  then show ?case by (cases k) simp_all
next
  case (Cons a xs)
  show ?case
  proof (cases k)
    case 0
    then show ?thesis using filter_subseqs_Nil [of "a # xs"] by simp
  next
    case (Suc k')
    then show ?thesis by (simp add: filter_subseqs_Cons Cons.IH del: subseqs.simps)
  qed
qed

lemma distinct_subseqs: "distinct xs \<Longrightarrow> distinct (subseqs xs)"
proof (induction xs)
  case Nil
  then show ?case by simp
next
  case (Cons a xs)
  then have "a \<notin> set c" if "c \<in> set (subseqs xs)" for c
    using that by (auto dest: list_emb_set)
  then have "a # c \<notin> set (subseqs xs)" for c by fastforce
  with Cons show ?case
    by (auto simp: Let_def distinct_map inj_on_def)
qed

text \<open>
  Claim C9, as the code has it. For every list of \<open>n\<close> elements and every integer
  \<open>k \<ge> 0\<close>, \<open>combinations\<close> returns exactly \<open>C(n,k)\<close> subsets, each of length \<open>k\<close> and
  each a subsequence of the list (the original order is kept), in one fixed order: the
  order of \<open>subseqs\<close>, restricted to the subsequences of length \<open>k\<close>. The subsets returned
  are all the subsequences of length \<open>k\<close>. \<open>k = 0\<close> gives exactly one empty subset and
  \<open>k > n\<close> gives the empty sequence.
\<close>

theorem combinations_enumerates:
  assumes "0 \<le> k"
  shows "\<exists>cs. combinations arr k = Some cs
           \<and> cs = filter (\<lambda>c. length c = nat k) (subseqs arr)
           \<and> length cs = length arr choose nat k
           \<and> (\<forall>c\<in>set cs. length c = nat k \<and> subseq c arr)
           \<and> set cs = {c. subseq c arr \<and> length c = nat k}
           \<and> (distinct arr \<longrightarrow> distinct cs)
           \<and> (k = 0 \<longrightarrow> cs = [[]])
           \<and> (int (length arr) < k \<longrightarrow> cs = [])"
proof -
  define cs where "cs = filter (\<lambda>c. length c = nat k) (subseqs arr)"
  have run: "combinations arr k = Some cs"
    unfolding cs_def using assms by (rule combinations_eq_subseqs)
  have len: "length cs = length arr choose nat k"
    unfolding cs_def by (rule length_filter_subseqs)
  have mem: "set cs = {c. subseq c arr \<and> length c = nat k}"
    unfolding cs_def by auto
  have dist: "distinct cs" if "distinct arr"
    unfolding cs_def using that by (simp add: distinct_subseqs)
  have zero: "cs = [[]]" if "k = 0"
    using that filter_subseqs_Nil [of arr] by (simp add: cs_def)
  have none: "cs = []" if "int (length arr) < k"
  proof -
    have "length arr choose nat k = 0" using that by (simp add: binomial_eq_0)
    with len show ?thesis by simp
  qed
  show ?thesis
    using run len mem dist zero none cs_def by auto
qed

theorem combinations_enumerates_witness:
  "combinations [1, 2, 3 :: int] 2 = Some [[1, 2], [1, 3], [2, 3]]
   \<and> length [[1, 2], [1, 3], [2, 3 :: int]] = length [1, 2, 3 :: int] choose nat 2
   \<and> combinations [1, 2, 3 :: int] 0 = Some [[]]
   \<and> combinations [1, 2, 3 :: int] 4 = Some []"
proof -
  have e: "combinations [1, 2, 3 :: int] 2 = Some [[1, 2], [1, 3], [2, 3]]" by code_simp
  have a: "length [[1, 2], [1, 3], [2, 3 :: int]] = length [1, 2, 3 :: int] choose nat 2"
    using combinations_enumerates [of 2 "[1, 2, 3 :: int]"] e by auto
  have b: "combinations [1, 2, 3 :: int] 0 = Some [[]]"
    using combinations_enumerates [of 0 "[1, 2, 3 :: int]"] by auto
  have c: "combinations [1, 2, 3 :: int] 4 = Some []"
    using combinations_enumerates [of 4 "[1, 2, 3 :: int]"] by auto
  show ?thesis using e a b c by simp
qed

text \<open>
  The claim as the specification states it, for every integer \<open>k\<close>, fails at a negative
  \<open>k\<close>: neither \<^verbatim>\<open>r === 0\<close> nor \<^verbatim>\<open>arr.length < r\<close> ever holds, the recursion has no end
  and the call returns no sequence of subsets.
\<close>

theorem combinations_negative_never_returns:
  "combinations ([] :: point list) (- 1) = None"
  by (simp add: combinations_negative)

section \<open>findSecret: too few points, and the choice among equal counts\<close>

text \<open>
  Claim C5. For every point list of length \<open>n\<close> and every threshold \<open>k\<close> with \<open>n < k\<close>,
  \<open>findSecret\<close> fails and returns no result: the tally is empty, \<^verbatim>\<open>best\<close> stays
  \<^verbatim>\<open>null\<close> and \<^verbatim>\<open>BigInt(best)\<close> throws.
\<close>

theorem findSecret_insufficient_shares:
  assumes "int (length points) < k"
  shows "findSecret points k = Some (Inl TypeError_null_to_BigInt)"
proof -
  have "k \<noteq> 0" using assms by auto
  then have "combinations points k = Some []"
    using assms by (simp add: combinations.simps [of points k])
  then show ?thesis by (simp add: findSecret_def then_e_def)
qed

theorem findSecret_insufficient_shares_witness:
  "findSecret [\<lparr>x = 1, y = 5\<rparr>, \<lparr>x = 2, y = 7\<rparr>] 3 = Some (Inl TypeError_null_to_BigInt)"
  using findSecret_insufficient_shares [of "[\<lparr>x = 1, y = 5\<rparr>, \<lparr>x = 2, y = 7\<rparr>]" 3] by simp

lemma tally_ok:
  "map lagrangeAtZero cs = map Inr vals \<Longrightarrow> tally cs freq = Inr (fold bump vals freq)"
proof (induction cs arbitrary: vals freq)
  case Nil
  then show ?case by simp
next
  case (Cons c cs)
  then obtain v vs where v: "vals = v # vs" "lagrangeAtZero c = Inr v"
    "map lagrangeAtZero cs = map Inr vs"
    by (cases vals) auto
  from Cons.IH [OF v(3)] show ?case
    by (simp add: v then_e_def bump_def)
qed

lemma map_fst_map_set:
  "map fst (map_set k v es) = (if k \<in> set (map fst es) then map fst es else map fst es @ [k])"
proof (induction es)
  case Nil
  then show ?case by simp
next
  case (Cons e es)
  obtain k' v' where e: "e = (k', v')" by (cases e)
  show ?case
  proof (cases "k' = k")
    case True
    then show ?thesis by (simp add: e)
  next
    case False
    with Cons.IH show ?thesis by (simp add: e)
  qed
qed

lemma map_of_map_set: "map_of (map_set k v es) = (map_of es)(k \<mapsto> v)"
  by (induction es) auto

lemma get_or_0_bump:
  "get_or_0 (bump v freq) w = (if w = v then get_or_0 freq v + 1 else get_or_0 freq w)"
  by (simp add: bump_def get_or_0_def map_of_map_set)

lemma get_or_0_fold_bump:
  "get_or_0 (fold bump vals freq) w = get_or_0 freq w + count_list vals w"
  by (induction vals arbitrary: freq) (simp_all add: get_or_0_bump)

lemma keys_bump:
  "map fst (bump v freq) =
     (if v \<in> set (map fst freq) then map fst freq else map fst freq @ [v])"
  by (simp add: bump_def map_fst_map_set)

lemma distinct_keys_fold_bump:
  "distinct (map fst freq) \<Longrightarrow> distinct (map fst (fold bump vals freq))"
  by (induction vals arbitrary: freq) (simp_all add: keys_bump)

lemma set_keys_bump: "fst ` set (bump v freq) = insert v (fst ` set freq)"
proof -
  have "set (map fst (bump v freq)) = insert v (set (map fst freq))"
    unfolding keys_bump by auto
  then show ?thesis by simp
qed

lemma set_keys_fold_bump:
  "fst ` set (fold bump vals freq) = fst ` set freq \<union> set vals"
  by (induction vals arbitrary: freq) (simp_all add: set_keys_bump)

lemma find_append:
  "List.find P (xs @ ys) = (case List.find P xs of Some a \<Rightarrow> Some a | None \<Rightarrow> List.find P ys)"
  by (induction xs) simp_all

lemma find_keys_fold_bump:
  "List.find P (map fst (fold bump vals freq)) =
     (case List.find P (map fst freq) of Some k \<Rightarrow> Some k | None \<Rightarrow> List.find P vals)"
proof (induction vals arbitrary: freq)
  case Nil
  then show ?case by (simp split: option.splits)
next
  case (Cons v vals)
  show ?case
  proof (cases "v \<in> set (map fst freq)")
    case True
    then have "\<not> P v" if "List.find P (map fst freq) = None"
      using that by (auto simp: find_None_iff)
    with True show ?thesis
      by (auto simp: Cons.IH keys_bump split: option.splits)
  next
    case False
    then show ?thesis
      by (simp add: Cons.IH keys_bump find_append split: option.splits)
  qed
qed

lemma entry_count:
  assumes "distinct (map fst es)" "e \<in> set es"
  shows "get_or_0 es (fst e) = snd e"
proof -
  have "map_of es (fst e) = Some (snd e)"
    using assms by (cases e) (simp add: map_of_is_SomeI)
  then show ?thesis by (simp add: get_or_0_def)
qed

lemma select_best_no_greater:
  "\<forall>e\<in>set es. snd e \<le> bestCount \<Longrightarrow> select_best es (best, bestCount) = (best, bestCount)"
  by (induction es) auto

lemma select_best_first_max:
  assumes "\<exists>e\<in>set es. bestCount < snd e"
  shows "\<exists>e. List.find (\<lambda>e. snd e = Max (snd ` set es)) es = Some e
              \<and> select_best es (best, bestCount) = (Some (fst e), snd e)"
  using assms
proof (induction es arbitrary: best bestCount)
  case Nil
  then show ?case by simp
next
  case (Cons a es)
  obtain v c where a: "a = (v, c)" by (cases a)
  show ?case
  proof (cases "\<exists>e\<in>set es. max c bestCount < snd e")
    case True
    then have ex: "\<exists>e\<in>set es. (if bestCount < c then c else bestCount) < snd e"
      by (auto simp: max_def split: if_splits)
    have ne: "set es \<noteq> {}" using True by auto
    from True obtain e' where e': "e' \<in> set es" "c < snd e'" by auto
    then have "snd e' \<le> Max (snd ` set es)" by simp
    with e'(2) have lt: "c < Max (snd ` set es)" by simp
    have M: "Max (snd ` set (a # es)) = Max (snd ` set es)"
      using ne lt by (simp add: a max_def)
    show ?thesis
    proof (cases "bestCount < c")
      case bc: True
      from ex bc have "\<exists>e\<in>set es. c < snd e" by simp
      from Cons.IH [OF this, of "Some v"] show ?thesis
        unfolding M using lt bc by (simp add: a)
    next
      case bc: False
      from ex bc have "\<exists>e\<in>set es. bestCount < snd e" by simp
      from Cons.IH [OF this, of best] show ?thesis
        unfolding M using lt bc by (simp add: a)
    qed
  next
    case False
    then have le: "\<forall>e\<in>set es. snd e \<le> max c bestCount" by (auto simp: not_less)
    with Cons.prems have bc: "bestCount < c" by (auto simp: a max_def split: if_splits)
    with le have le': "\<forall>e\<in>set es. snd e \<le> c" by (simp add: max_def)
    have M: "Max (snd ` set (a # es)) = c"
    proof (cases "set es = {}")
      case True
      then show ?thesis by (simp add: a)
    next
      case False
      then have "Max (snd ` set es) \<le> c" using le' by simp
      then have "max c (Max (snd ` set es)) = c" by (rule max_absorb1)
      moreover have "Max (snd ` set (a # es)) = max c (Max (snd ` set es))"
        using False by (simp add: a)
      ultimately show ?thesis by (simp only:)
    qed
    show ?thesis
      unfolding M using bc select_best_no_greater [OF le', of "Some v"] by (simp add: a)
  qed
qed

lemma find_map_fst:
  "List.find P (map fst es) = map_option fst (List.find (\<lambda>e. P (fst e)) es)"
  by (induction es) simp_all

text \<open>
  Claim C10. For a threshold \<open>k\<close> with \<open>1 \<le> k \<le> n\<close>, when every subset interpolates
  without an exception, \<open>findSecret\<close> returns normally; its count is the greatest number
  of subsets that agree on one value, and its secret is the first value, in the order
  in which the subsets are enumerated, that reaches this count (the first key of the
  frequency map with the greatest count, kept by the strict test
  \<^verbatim>\<open>count > bestCount\<close>). So among several candidates with the greatest count the one
  produced first is returned, and no tie is reported. \<open>vals\<close> is the list of the
  interpolated values of the subsets \<open>cs\<close>, in order.
\<close>

theorem findSecret_first_of_equal_counts:
  assumes "1 \<le> k" and "k \<le> int (length points)"
    and "combinations points k = Some cs"
    and "map lagrangeAtZero cs = map Inr vals"
  shows "\<exists>s m. findSecret points k = Some (Inr \<lparr>secret = s, count = m, total_n = length cs\<rparr>)
           \<and> m = Max (count_list vals ` set vals)
           \<and> List.find (\<lambda>v. count_list vals v = m) vals = Some s"
proof -
  define freq where "freq = fold bump vals []"
  have t: "tally cs [] = Inr freq"
    unfolding freq_def using assms(4) by (rule tally_ok)
  have k0: "0 \<le> k" using assms(1) by simp
  have "cs = filter (\<lambda>c. length c = nat k) (subseqs points)"
    using combinations_eq_subseqs [OF k0, of points] assms(3) by simp
  then have "length cs = length points choose nat k"
    by (simp add: length_filter_subseqs)
  moreover have "nat k \<le> length points" using assms(2) k0 by simp
  ultimately have "0 < length cs" by (simp add: zero_less_binomial)
  moreover have "length cs = length vals"
    using assms(4) by (rule map_eq_imp_length_eq)
  ultimately have ne: "vals \<noteq> []" by auto
  have keys: "fst ` set freq = set vals"
    unfolding freq_def by (simp add: set_keys_fold_bump)
  have d: "distinct (map fst freq)"
    unfolding freq_def by (rule distinct_keys_fold_bump) simp
  have cnt: "snd e = count_list vals (fst e)" if "e \<in> set freq" for e
    using entry_count [OF d that] get_or_0_fold_bump [of vals "[]" "fst e"]
    by (simp add: freq_def get_or_0_def)
  have img: "snd ` set freq = count_list vals ` set vals"
  proof (intro equalityI subsetI)
    fix c assume "c \<in> snd ` set freq"
    then obtain e where e: "e \<in> set freq" "c = snd e" by auto
    then have "fst e \<in> set vals" using keys by auto
    with e cnt [OF e(1)] show "c \<in> count_list vals ` set vals" by auto
  next
    fix c assume "c \<in> count_list vals ` set vals"
    then obtain v where v: "v \<in> set vals" "c = count_list vals v" by auto
    then have "v \<in> fst ` set freq" using keys by simp
    then obtain e where e: "e \<in> set freq" "fst e = v" by (elim imageE) simp
    with v cnt [OF e(1)] show "c \<in> snd ` set freq" by force
  qed
  obtain v0 where v0: "v0 \<in> set vals" using ne by (cases vals) auto
  then have "v0 \<in> fst ` set freq" using keys by simp
  then obtain e0 where e0: "e0 \<in> set freq" "fst e0 = v0" by (elim imageE) simp
  have "0 < count_list vals v0" using v0 count_list_0_iff [of vals v0] by auto
  then have "0 < snd e0" using e0 cnt [OF e0(1)] by simp
  with e0(1) have "\<exists>e\<in>set freq. 0 < snd e" by (rule rev_bexI)
  from select_best_first_max [OF this, of None]
  obtain e where e: "List.find (\<lambda>e. snd e = Max (snd ` set freq)) freq = Some e"
    "select_best freq (None, 0) = (Some (fst e), snd e)" by blast
  define m where "m = Max (count_list vals ` set vals)"
  have Mx: "Max (snd ` set freq) = m" by (simp only: img m_def)
  have e_max: "snd e = m" using e(1) unfolding Mx by (auto simp: find_Some_iff)
  have "List.find (\<lambda>e. count_list vals (fst e) = m) freq
      = List.find (\<lambda>e. snd e = Max (snd ` set freq)) freq"
  proof (rule find_cong [OF refl])
    fix a assume "a \<in> set freq"
    then show "(count_list vals (fst a) = m) = (snd a = Max (snd ` set freq))"
      unfolding Mx by (simp add: cnt)
  qed
  then have "List.find (\<lambda>v. count_list vals v = m) (map fst freq) = Some (fst e)"
    by (simp add: find_map_fst e(1))
  moreover have "List.find (\<lambda>v. count_list vals v = m) (map fst freq)
      = List.find (\<lambda>v. count_list vals v = m) vals"
    unfolding freq_def by (simp add: find_keys_fold_bump)
  ultimately have first: "List.find (\<lambda>v. count_list vals v = m) vals = Some (fst e)"
    by simp
  have "findSecret points k = Some (Inr \<lparr>secret = fst e, count = m, total_n = length cs\<rparr>)"
    by (simp add: findSecret_def assms(3) t then_e_def e(2) e_max)
  with first show ?thesis unfolding m_def by blast
qed

theorem findSecret_first_of_equal_counts_witness:
  "findSecret [\<lparr>x = 1, y = 7\<rparr>, \<lparr>x = 2, y = 9\<rparr>, \<lparr>x = 3, y = 9\<rparr>, \<lparr>x = 4, y = 7\<rparr>] 1
     = Some (Inr \<lparr>secret = 7, count = 2, total_n = 4\<rparr>)
   \<and> count_list [7, 9, 9, 7 :: int] 7 = 2 \<and> count_list [7, 9, 9, 7 :: int] 9 = 2"
proof -
  let ?pts = "[\<lparr>x = 1, y = 7\<rparr>, \<lparr>x = 2, y = 9\<rparr>, \<lparr>x = 3, y = 9\<rparr>, \<lparr>x = 4, y = 7\<rparr>]"
  let ?cs = "[[\<lparr>x = 1, y = 7\<rparr>], [\<lparr>x = 2, y = 9\<rparr>], [\<lparr>x = 3, y = 9\<rparr>], [\<lparr>x = 4, y = 7\<rparr>]]"
  have c: "combinations ?pts 1 = Some ?cs" by code_simp
  have v: "map lagrangeAtZero ?cs = map Inr [7, 9, 9, 7]" by code_simp
  have k: "(1 :: int) \<le> 1" "1 \<le> int (length ?pts)" by simp_all
  have mx: "Max (count_list [7, 9, 9, 7 :: int] ` set [7, 9, 9, 7]) = 2" by simp
  from findSecret_first_of_equal_counts [OF k c v] mx show ?thesis by simp
qed

end
